theory Spec2Isabelle
  imports Main "HOL-Library.Word"
begin

unbundle bit_operations_syntax

section \<open>Values\<close>

text \<open>
  The tagged value of the runtime. \<^verbatim>\<open>value.h\<close> is not part of the sources at hand, so
  the variants are those the data model lists: none, bool, int, notImplemented, the
  kwargs marker and a reference to a heap object. The float variant is left out: no
  function below produces or inspects one. A heap reference is the index of the object
  in the heap.
\<close>

datatype KrkValue =
    NONE_VAL
  | BOOLEAN_VAL bool
  | INTEGER_VAL int
  | NOTIMPL_VAL
  | KWARGS_VAL nat
  | OBJECT_VAL nat

fun IS_KWARGS :: "KrkValue \<Rightarrow> bool" where
  "IS_KWARGS (KWARGS_VAL m) = True"
| "IS_KWARGS v = False"

fun IS_NONE :: "KrkValue \<Rightarrow> bool" where
  "IS_NONE NONE_VAL = True"
| "IS_NONE v = False"

fun numeric_of :: "KrkValue \<Rightarrow> int option" where
  "numeric_of (BOOLEAN_VAL b) = Some (if b then 1 else 0)"
| "numeric_of (INTEGER_VAL i) = Some i"
| "numeric_of v = None"

text \<open>
  Modelled from the spec: \<^verbatim>\<open>krk_valuesEqual\<close> (value.c is missing). Numeric equality
  across int and bool; every other value equals only itself, which for objects is
  pointer identity (interned strings, instances without \<^verbatim>\<open>__eq__\<close>). Tuples, compared
  element by element, and instances with a managed \<^verbatim>\<open>__eq__\<close> are outside this model.
\<close>

definition krk_valuesEqual :: "KrkValue \<Rightarrow> KrkValue \<Rightarrow> bool" where
  "krk_valuesEqual a b =
     (case numeric_of a of
        Some x \<Rightarrow> (case numeric_of b of Some y \<Rightarrow> x = y | None \<Rightarrow> False)
      | None \<Rightarrow> (case numeric_of b of Some y \<Rightarrow> False | None \<Rightarrow> a = b))"

text \<open>
  Modelled from the spec: \<^verbatim>\<open>krk_hashValue\<close> (value.c is missing). An int or bool hashes
  to its integer value (read as an unsigned 32-bit number), none and notImplemented to a
  fixed constant, an object to its identity.
\<close>

fun krk_hashValue :: "KrkValue \<Rightarrow> nat" where
  "krk_hashValue NONE_VAL = 0"
| "krk_hashValue (BOOLEAN_VAL b) = (if b then 1 else 0)"
| "krk_hashValue (INTEGER_VAL i) = nat (i mod 2 ^ 32)"
| "krk_hashValue NOTIMPL_VAL = 0"
| "krk_hashValue (KWARGS_VAL m) = m"
| "krk_hashValue (OBJECT_VAL a) = a"

section \<open>Hash table\<close>

text \<open>
  \<^verbatim>\<open>table.c\<close> is missing; \<^verbatim>\<open>obj_dict.c\<close> reads the fields \<^verbatim>\<open>count\<close>, \<^verbatim>\<open>capacity\<close> and
  \<^verbatim>\<open>entries[i].key\<close>, \<^verbatim>\<open>entries[i].value\<close> and tests a slot with \<^verbatim>\<open>IS_KWARGS\<close> on its
  key. The array of slots is a list, and \<^verbatim>\<open>capacity\<close> is its length.
\<close>

record KrkTableEntry =
  key :: KrkValue
  val :: KrkValue

record KrkTable =
  count :: nat
  entries :: "KrkTableEntry list"

abbreviation capacity :: "KrkTable \<Rightarrow> nat" where
  "capacity t \<equiv> length (entries t)"

text \<open>
  Modelled from the spec: the slot encoding of table.c. A slot whose key is the kwargs
  marker holds no entry; the marker's payload is the flag that tells a tombstone (non-zero)
  from a slot that was never used (zero).
\<close>

definition EMPTY_ENTRY :: KrkTableEntry where
  "EMPTY_ENTRY = \<lparr>key = KWARGS_VAL 0, val = KWARGS_VAL 0\<rparr>"

definition TOMBSTONE_ENTRY :: KrkTableEntry where
  "TOMBSTONE_ENTRY = \<lparr>key = KWARGS_VAL 1, val = KWARGS_VAL 0\<rparr>"

text \<open>Modelled from the spec: \<^verbatim>\<open>krk_initTable\<close> (table.c is missing).\<close>

definition krk_initTable :: KrkTable where
  "krk_initTable = \<lparr>count = 0, entries = []\<rparr>"

text \<open>
  Modelled from the spec: \<^verbatim>\<open>krk_findEntry\<close> (table.c is missing). Open addressing with
  linear probing: the slots are visited from \<^verbatim>\<open>hash mod capacity\<close> onwards, wrapping
  around, each slot at most once. The search stops at a slot holding an equal key, or
  at a never-used slot, where it answers the first tombstone it passed, if any, and that
  slot otherwise.
\<close>

definition probe_seq :: "nat \<Rightarrow> nat \<Rightarrow> nat list" where
  "probe_seq h cap = map (\<lambda>j. (h + j) mod cap) [0..<cap]"

fun probe :: "KrkTableEntry list \<Rightarrow> KrkValue \<Rightarrow> nat list \<Rightarrow> nat option \<Rightarrow> nat option" where
  "probe es k [] tomb = tomb"
| "probe es k (i # is) tomb =
     (if IS_KWARGS (key (es ! i)) then
        (if key (es ! i) = KWARGS_VAL 0
         then (case tomb of None \<Rightarrow> Some i | Some t \<Rightarrow> Some t)
         else probe es k is (case tomb of None \<Rightarrow> Some i | Some t \<Rightarrow> Some t))
      else if krk_valuesEqual (key (es ! i)) k then Some i
      else probe es k is tomb)"

definition krk_findEntry :: "KrkTableEntry list \<Rightarrow> KrkValue \<Rightarrow> nat option" where
  "krk_findEntry es k = probe es k (probe_seq (krk_hashValue k) (length es)) None"

text \<open>Modelled from the spec: \<^verbatim>\<open>krk_tableGet\<close> (table.c is missing).\<close>

definition krk_tableGet :: "KrkTable \<Rightarrow> KrkValue \<Rightarrow> KrkValue option" where
  "krk_tableGet t k =
     (if count t = 0 then None
      else case krk_findEntry (entries t) k of
             None \<Rightarrow> None
           | Some i \<Rightarrow> (if IS_KWARGS (key (entries t ! i)) then None
                        else Some (val (entries t ! i))))"

text \<open>
  Modelled from the spec: \<^verbatim>\<open>krk_tableAdjustCapacity\<close> (table.c is missing). A fresh
  array of never-used slots, into which every entry of the old array is inserted again,
  in slot order; tombstones are dropped and the count is that of the entries kept.
\<close>

definition reinsert :: "KrkTableEntry \<Rightarrow> KrkTable \<Rightarrow> KrkTable" where
  "reinsert e t =
     (if IS_KWARGS (key e) then t
      else case krk_findEntry (entries t) (key e) of
             None \<Rightarrow> t
           | Some i \<Rightarrow> \<lparr>count = count t + 1, entries = (entries t)[i := e]\<rparr>)"

definition krk_tableAdjustCapacity :: "KrkTable \<Rightarrow> nat \<Rightarrow> KrkTable" where
  "krk_tableAdjustCapacity t n =
     fold reinsert (entries t) \<lparr>count = 0, entries = replicate n EMPTY_ENTRY\<rparr>"

definition GROW_CAPACITY :: "nat \<Rightarrow> nat" where
  "GROW_CAPACITY c = (if c < 8 then 8 else c * 2)"

text \<open>
  Modelled from the spec: \<^verbatim>\<open>krk_tableSet\<close> (table.c is missing). The table grows when
  one more entry would exceed the load factor 0.75; the answer is true iff the key was new.
\<close>

definition krk_tableSet :: "KrkTable \<Rightarrow> KrkValue \<Rightarrow> KrkValue \<Rightarrow> bool \<times> KrkTable" where
  "krk_tableSet t k v =
     (let t1 = (if 4 * (count t + 1) > 3 * capacity t
                then krk_tableAdjustCapacity t (GROW_CAPACITY (capacity t)) else t)
      in case krk_findEntry (entries t1) k of
           None \<Rightarrow> (False, t1)
         | Some i \<Rightarrow>
             (let isNewKey = IS_KWARGS (key (entries t1 ! i))
              in (isNewKey,
                  \<lparr>count = (if isNewKey then count t1 + 1 else count t1),
                   entries = (entries t1)[i := \<lparr>key = k, val = v\<rparr>]\<rparr>)))"

text \<open>
  Modelled from the spec: \<^verbatim>\<open>krk_tableDelete\<close> (table.c is missing). Deletion leaves a
  tombstone, so that the probe chains through the slot stay valid.
\<close>

definition krk_tableDelete :: "KrkTable \<Rightarrow> KrkValue \<Rightarrow> bool \<times> KrkTable" where
  "krk_tableDelete t k =
     (if count t = 0 then (False, t)
      else case krk_findEntry (entries t) k of
             None \<Rightarrow> (False, t)
           | Some i \<Rightarrow>
               (if IS_KWARGS (key (entries t ! i)) then (False, t)
                else (True, \<lparr>count = count t - 1,
                             entries = (entries t)[i := TOMBSTONE_ENTRY]\<rparr>)))"


text \<open>
  The invariant of a table: the count is the number of slots holding an entry, and
  probing for the key of any such slot ends at that slot.
\<close>

definition live_entries :: "KrkTableEntry list \<Rightarrow> KrkTableEntry list" where
  "live_entries es = filter (\<lambda>e. \<not> IS_KWARGS (key e)) es"

definition table_reach :: "KrkTableEntry list \<Rightarrow> bool" where
  "table_reach es =
     list_all (\<lambda>i. IS_KWARGS (key (es ! i)) \<or> krk_findEntry es (key (es ! i)) = Some i)
              [0..<length es]"

definition table_inv :: "KrkTable \<Rightarrow> bool" where
  "table_inv t = (count t = length (live_entries (entries t)) \<and> table_reach (entries t))"


text \<open>
  Two views of the entries used to state what the operations do: the entry a probe for
  \<open>k\<close> ends at, and the first entry in slot order whose key equals \<open>k\<close>.
\<close>

definition slot_lookup :: "KrkTableEntry list \<Rightarrow> KrkValue \<Rightarrow> KrkValue option" where
  "slot_lookup es k =
     (case krk_findEntry es k of
        None \<Rightarrow> None
      | Some i \<Rightarrow> (if IS_KWARGS (key (es ! i)) then None else Some (val (es ! i))))"

definition entries_lookup :: "KrkTableEntry list \<Rightarrow> KrkValue \<Rightarrow> KrkValue option" where
  "entries_lookup es k =
     map_option val (find (\<lambda>e. \<not> IS_KWARGS (key e) \<and> krk_valuesEqual (key e) k) es)"

fun keys_distinct :: "KrkTableEntry list \<Rightarrow> bool" where
  "keys_distinct [] = True"
| "keys_distinct (x # xs) =
     ((\<forall>e\<in>set xs. IS_KWARGS (key x) \<or> IS_KWARGS (key e) \<or> \<not> krk_valuesEqual (key x) (key e))
      \<and> keys_distinct xs)"

section \<open>Objects, threads and the VM state\<close>

text \<open>
  \<^verbatim>\<open>struct Exceptions\<close> of vm.h: one class pointer per core exception type. A class is
  identified by the member that holds it; \<open>exception_name\<close> is the name the member's
  \<^verbatim>\<open>@exception\<close> tag documents.
\<close>

datatype Exceptions =
    baseException
  | typeError
  | argumentError
  | indexError
  | keyError
  | attributeError
  | nameError
  | importError
  | ioError
  | valueError
  | keyboardInterrupt
  | zeroDivisionError
  | notImplementedError
  | syntaxError
  | assertionError


text \<open>
  Heap objects. \<^verbatim>\<open>object.h\<close> is missing; each constructor carries the fields the
  sources at hand read or write:
  \<^item> a string, by its bytes; a tuple, by its values;
  \<^item> a list with its \<^verbatim>\<open>__inrepr\<close> attribute (builtins: 0 or 1, here a bool) and its values;
  \<^item> a dict (\<^verbatim>\<open>KrkDict\<close>) with the \<^verbatim>\<open>KRK_OBJ_FLAGS_IN_REPR\<close> bit of its object flags
    and its \<^verbatim>\<open>entries\<close> table;
  \<^item> the three dict views (\<^verbatim>\<open>struct DictItems\<close>, \<^verbatim>\<open>DictKeys\<close>, \<^verbatim>\<open>DictValues\<close>) with
    their \<^verbatim>\<open>dict\<close> and \<^verbatim>\<open>i\<close> fields;
  \<^item> an exception instance with its class and message;
  \<^item> the callables of the calling convention: a closure (with the number of arguments
    its code object requires), a native function (an index into the table of natives),
    a bound method (receiver, method), a class (its cached \<^verbatim>\<open>__init__\<close> and
    \<^verbatim>\<open>__call__\<close> slots) and an instance (its class).
\<close>

datatype KrkObj =
    String string
  | Tuple "KrkValue list"
  | List bool "KrkValue list"
  | Dict bool KrkTable
  | DictItems KrkValue nat
  | DictKeys KrkValue nat
  | DictValues KrkValue nat
  | ExceptionInstance Exceptions string
  | Closure nat
  | Native nat
  | BoundMethod KrkValue KrkValue
  | Class "KrkValue option" "KrkValue option"
  | Instance nat

text \<open>\<^verbatim>\<open>KrkCallFrame\<close> of vm.h (the globals pointer and the profiling time are left out).\<close>

record KrkCallFrame =
  closure :: nat
  ip :: nat
  slots :: nat
  outSlots :: nat

text \<open>
  \<^verbatim>\<open>KrkThreadState\<close> of vm.h: the frame stack (\<^verbatim>\<open>frameCount\<close> is its length), the value
  stack (its top is the end of the list), the current exception and the flags.
\<close>

record KrkThreadState =
  frames :: "KrkCallFrame list"
  stack :: "KrkValue list"
  currentException :: KrkValue
  flags :: "32 word"


text \<open>
  The state the functions work on: the objects of the VM, \<^verbatim>\<open>vm.maximumCallDepth\<close> and
  \<^verbatim>\<open>krk_currentThread\<close>.
\<close>

record world =
  heap :: "KrkObj list"
  thread :: KrkThreadState
  maximumCallDepth :: nat

definition KRK_CALL_FRAMES_MAX :: nat where
  "KRK_CALL_FRAMES_MAX = 64"

definition KRK_THREAD_HAS_EXCEPTION :: "32 word" where
  "KRK_THREAD_HAS_EXCEPTION = push_bit 3 1"

definition has_exception :: "world \<Rightarrow> bool" where
  "has_exception w = (flags (thread w) AND KRK_THREAD_HAS_EXCEPTION \<noteq> 0)"

definition alloc :: "KrkObj \<Rightarrow> world \<Rightarrow> nat \<times> world" where
  "alloc obj w = (length (heap w), w\<lparr>heap := heap w @ [obj]\<rparr>)"

definition obj_at :: "world \<Rightarrow> KrkValue \<Rightarrow> KrkObj option" where
  "obj_at w v = (case v of OBJECT_VAL a \<Rightarrow> (if a < length (heap w) then Some (heap w ! a) else None)
                 | _ \<Rightarrow> None)"

definition set_obj :: "nat \<Rightarrow> KrkObj \<Rightarrow> world \<Rightarrow> world" where
  "set_obj a obj w = w\<lparr>heap := (heap w)[a := obj]\<rparr>"

text \<open>\<^verbatim>\<open>krk_push\<close>, \<^verbatim>\<open>krk_pop\<close> (declared in vm.h; vm.c is missing).\<close>

definition krk_push :: "KrkValue \<Rightarrow> world \<Rightarrow> world" where
  "krk_push v w = w\<lparr>thread := (thread w)\<lparr>stack := stack (thread w) @ [v]\<rparr>\<rparr>"

definition krk_pop :: "world \<Rightarrow> KrkValue \<times> world" where
  "krk_pop w =
     (case rev (stack (thread w)) of
        [] \<Rightarrow> (NONE_VAL, w)
      | v # r \<Rightarrow> (v, w\<lparr>thread := (thread w)\<lparr>stack := rev r\<rparr>\<rparr>))"

text \<open>
  Modelled from the spec: \<^verbatim>\<open>krk_runtimeError\<close> (declared and documented in vm.h; vm.c is
  missing). An instance of the exception type is created with the formatted message,
  attached to the current thread, the flag \<^verbatim>\<open>KRK_THREAD_HAS_EXCEPTION\<close> is set, and the
  answer is \<^verbatim>\<open>None\<close>.
\<close>

definition krk_runtimeError :: "Exceptions \<Rightarrow> string \<Rightarrow> world \<Rightarrow> KrkValue \<times> world" where
  "krk_runtimeError type msg w =
     (let (a, w1) = alloc (ExceptionInstance type msg) w
      in (NONE_VAL,
          w1\<lparr>thread := (thread w1)\<lparr>currentException := OBJECT_VAL a,
                                    flags := flags (thread w1) OR KRK_THREAD_HAS_EXCEPTION\<rparr>\<rparr>))"







section \<open>obj\_dict.c\<close>

text \<open>
  A native function receives \<^verbatim>\<open>argc\<close>, \<^verbatim>\<open>argv\<close> and \<^verbatim>\<open>hasKw\<close>. Here \<open>argv\<close> is the list of
  the \<^verbatim>\<open>argc\<close> positional arguments, and a function that reads \<^verbatim>\<open>argv[argc]\<close> under
  \<^verbatim>\<open>hasKw\<close> takes that value as an option.
\<close>

fun dict_of_loop :: "KrkTable \<Rightarrow> KrkValue list \<Rightarrow> KrkTable" where
  "dict_of_loop t (k # v # rest) = dict_of_loop (snd (krk_tableSet t k v)) rest"
| "dict_of_loop t rest = t"

definition krk_dict_of :: "KrkValue list \<Rightarrow> world \<Rightarrow> KrkValue \<times> world" where
  "krk_dict_of argv w =
     (if length argv mod 2 \<noteq> 0
      then krk_runtimeError argumentError ''Expected even number of arguments to dictOf'' w
      else
        (let (outDict, w1) = alloc (Dict False krk_initTable) w;
             w2 = krk_push (OBJECT_VAL outDict) w1;
             t = krk_tableAdjustCapacity krk_initTable (length argv);
             w3 = set_obj outDict (Dict False (dict_of_loop t argv)) w2
         in krk_pop w3))"

text \<open>
  Modelled from the spec: the argument checks of util.h, which is missing
  (\<^verbatim>\<open>KRK_METHOD\<close> with its check of \<^verbatim>\<open>argv[0]\<close>, \<^verbatim>\<open>CHECK_ARG\<close>, \<^verbatim>\<open>METHOD_TAKES_NONE\<close>,
  \<^verbatim>\<open>METHOD_TAKES_EXACTLY\<close>, \<^verbatim>\<open>METHOD_TAKES_AT_LEAST\<close>, \<^verbatim>\<open>METHOD_TAKES_AT_MOST\<close>): a wrong
  number of arguments raises ArgumentError, a wrong type TypeError. The texts of their
  messages are not in the sources. The count \<open>n\<close> of the \<^verbatim>\<open>METHOD_TAKES\<close> checks does not
  include the receiver.
\<close>

definition NOT_ENOUGH_ARGS :: "world \<Rightarrow> KrkValue \<times> world" where
  "NOT_ENOUGH_ARGS w = krk_runtimeError argumentError ''not enough arguments'' w"

definition TYPE_ERROR :: "world \<Rightarrow> KrkValue \<times> world" where
  "TYPE_ERROR w = krk_runtimeError typeError ''unexpected argument type'' w"

definition METHOD_TAKES_ERROR :: "world \<Rightarrow> KrkValue \<times> world" where
  "METHOD_TAKES_ERROR w = krk_runtimeError argumentError ''wrong number of arguments'' w"

definition IS_dict :: "world \<Rightarrow> KrkValue \<Rightarrow> bool" where
  "IS_dict w v = (case obj_at w v of Some (Dict f t) \<Rightarrow> True | _ \<Rightarrow> False)"

definition AS_DICT :: "world \<Rightarrow> KrkValue \<Rightarrow> KrkTable" where
  "AS_DICT w v = (case obj_at w v of Some (Dict f t) \<Rightarrow> t | _ \<Rightarrow> krk_initTable)"

definition IN_REPR :: "world \<Rightarrow> KrkValue \<Rightarrow> bool" where
  "IN_REPR w v = (case obj_at w v of Some (Dict f t) \<Rightarrow> f | Some (List f vs) \<Rightarrow> f | _ \<Rightarrow> False)"

fun AS_OBJECT :: "KrkValue \<Rightarrow> nat" where
  "AS_OBJECT (OBJECT_VAL a) = a"
| "AS_OBJECT v = 0"

text \<open>Writing \<^verbatim>\<open>self->entries\<close> and the in-repr bit of a dict.\<close>

definition set_entries :: "KrkValue \<Rightarrow> KrkTable \<Rightarrow> world \<Rightarrow> world" where
  "set_entries self t w = set_obj (AS_OBJECT self) (Dict (IN_REPR w self) t) w"


text \<open>
  \<^verbatim>\<open>krk_callDirect(type->_reprer, 1)\<close> on a value: the class table and \<^verbatim>\<open>krk_callDirect\<close>
  are missing, so the functions that ask for the repr of a value take it as a parameter.
  The answer is the bytes of the string returned, or \<open>None\<close> when what is returned is not
  a string; there is no answer at all when the call depth is used up.
\<close>

type_synonym reprer = "KrkValue \<Rightarrow> world \<Rightarrow> (string option \<times> world) option"

text \<open>
  The macro \<^verbatim>\<open>KEY_ERROR\<close>. \<open>rp v\<close> stands for \<^verbatim>\<open>krk_push(v)\<close> followed by
  \<^verbatim>\<open>krk_callDirect(type->_reprer, 1)\<close>, which takes the pushed value off the stack again.
\<close>

definition KEY_ERROR :: "reprer \<Rightarrow> KrkValue \<Rightarrow> world \<Rightarrow> (KrkValue \<times> world) option" where
  "KEY_ERROR rp v w =
     (case rp v w of
        None \<Rightarrow> None
      | Some (Some asString, w1) \<Rightarrow> Some (krk_runtimeError keyError asString w1)
      | Some (None, w1) \<Rightarrow> Some (krk_runtimeError keyError ''key error'' w1))"

text \<open>
  The methods of dict. \<open>dict_getitem\<close> is the C function \<^verbatim>\<open>_dict___getitem__\<close>, that is
  \<^verbatim>\<open>dict.__getitem__\<close>, and likewise for the other methods.
\<close>

definition dict_getitem :: "reprer \<Rightarrow> KrkValue list \<Rightarrow> world \<Rightarrow> (KrkValue \<times> world) option" where
  "dict_getitem rp argv w =
     (if length argv < 1 then Some (NOT_ENOUGH_ARGS w)
      else if \<not> IS_dict w (argv ! 0) then Some (TYPE_ERROR w)
      else if length argv \<noteq> 2 then Some (METHOD_TAKES_ERROR w)
      else case krk_tableGet (AS_DICT w (argv ! 0)) (argv ! 1) of
             None \<Rightarrow> (if \<not> IS_NONE (currentException (thread w)) then Some (NONE_VAL, w)
                      else KEY_ERROR rp (argv ! 1) w)
           | Some out \<Rightarrow> Some (out, w))"

definition dict_setitem :: "KrkValue list \<Rightarrow> world \<Rightarrow> KrkValue \<times> world" where
  "dict_setitem argv w =
     (if length argv < 1 then NOT_ENOUGH_ARGS w
      else if \<not> IS_dict w (argv ! 0) then TYPE_ERROR w
      else if length argv \<noteq> 3 then METHOD_TAKES_ERROR w
      else (argv ! 2,
            set_entries (argv ! 0)
              (snd (krk_tableSet (AS_DICT w (argv ! 0)) (argv ! 1) (argv ! 2))) w))"

definition dict_len :: "KrkValue list \<Rightarrow> world \<Rightarrow> KrkValue \<times> world" where
  "dict_len argv w =
     (if length argv < 1 then NOT_ENOUGH_ARGS w
      else if \<not> IS_dict w (argv ! 0) then TYPE_ERROR w
      else if length argv > 1 then METHOD_TAKES_ERROR w
      else (INTEGER_VAL (int (count (AS_DICT w (argv ! 0)))), w))"




subsection \<open>The views of a dict\<close>


definition dictkeys_init :: "KrkValue list \<Rightarrow> world \<Rightarrow> KrkValue \<times> world" where
  "dictkeys_init argv w =
     (if length argv < 1 then NOT_ENOUGH_ARGS w
      else case obj_at w (argv ! 0) of
        Some (DictKeys d i) \<Rightarrow>
          (if length argv \<noteq> 2 then METHOD_TAKES_ERROR w
           else if \<not> IS_dict w (argv ! 1) then TYPE_ERROR w
           else (argv ! 0, set_obj (AS_OBJECT (argv ! 0)) (DictKeys (argv ! 1) 0) w))
      | _ \<Rightarrow> TYPE_ERROR w)"

definition dictvalues_init :: "KrkValue list \<Rightarrow> world \<Rightarrow> KrkValue \<times> world" where
  "dictvalues_init argv w =
     (if length argv < 1 then NOT_ENOUGH_ARGS w
      else case obj_at w (argv ! 0) of
        Some (DictValues d i) \<Rightarrow>
          (if length argv \<noteq> 2 then METHOD_TAKES_ERROR w
           else if \<not> IS_dict w (argv ! 1) then TYPE_ERROR w
           else (argv ! 0, set_obj (AS_OBJECT (argv ! 0)) (DictValues (argv ! 1) 0) w))
      | _ \<Rightarrow> TYPE_ERROR w)"


definition dict_keys :: "KrkValue list \<Rightarrow> world \<Rightarrow> KrkValue \<times> world" where
  "dict_keys argv w =
     (if length argv < 1 then NOT_ENOUGH_ARGS w
      else if \<not> IS_dict w (argv ! 0) then TYPE_ERROR w
      else if length argv > 1 then METHOD_TAKES_ERROR w
      else
        (let (output, w1) = alloc (DictKeys NONE_VAL 0) w;
             w2 = krk_push (OBJECT_VAL output) w1;
             w3 = snd (dictkeys_init [OBJECT_VAL output, argv ! 0] w2);
             w4 = snd (krk_pop w3)
         in (OBJECT_VAL output, w4)))"

definition dict_values :: "KrkValue list \<Rightarrow> world \<Rightarrow> KrkValue \<times> world" where
  "dict_values argv w =
     (if length argv < 1 then NOT_ENOUGH_ARGS w
      else if \<not> IS_dict w (argv ! 0) then TYPE_ERROR w
      else if length argv > 1 then METHOD_TAKES_ERROR w
      else
        (let (output, w1) = alloc (DictValues NONE_VAL 0) w;
             w2 = krk_push (OBJECT_VAL output) w1;
             w3 = snd (dictvalues_init [OBJECT_VAL output, argv ! 0] w2);
             w4 = snd (krk_pop w3)
         in (OBJECT_VAL output, w4)))"




text \<open>
  The \<^verbatim>\<open>do { ... } while (1)\<close> loop of the three \<^verbatim>\<open>__call__\<close> methods, which differ only
  in what they return for the slot found. Nothing in the loop writes to the dict, so its
  entries are read once. The loop answers the entry of the first slot from \<open>i\<close> onwards
  whose key is not the kwargs marker, or nothing when \<open>i\<close> has reached the capacity, and
  the new value of \<^verbatim>\<open>self->i\<close>.
\<close>

function dictview_call_loop :: "KrkTableEntry list \<Rightarrow> nat \<Rightarrow> KrkTableEntry option \<times> nat" where
  "dictview_call_loop es i =
     (if i \<ge> length es then (None, i)
      else if \<not> IS_KWARGS (key (es ! i)) then (Some (es ! i), i + 1)
      else dictview_call_loop es (i + 1))"
  by pat_completeness auto
termination
  by (relation "measure (\<lambda>(es, i). length es - i)") auto

text \<open>
  The \<^verbatim>\<open>__call__\<close> methods. There is no answer (\<open>None\<close>) when \<^verbatim>\<open>self->dict\<close> is not a
  dict, where the C code would read through a wrong pointer.
\<close>

definition dictitems_call :: "KrkValue list \<Rightarrow> world \<Rightarrow> (KrkValue \<times> world) option" where
  "dictitems_call argv w =
     (if length argv < 1 then Some (NOT_ENOUGH_ARGS w)
      else case obj_at w (argv ! 0) of
        Some (DictItems d i) \<Rightarrow>
          (if \<not> IS_dict w d then None
           else case dictview_call_loop (entries (AS_DICT w d)) i of
                  (None, i') \<Rightarrow>
                     Some (argv ! 0, set_obj (AS_OBJECT (argv ! 0)) (DictItems d i') w)
                | (Some e, i') \<Rightarrow>
                     (let (outValue, w1) = alloc (Tuple [key e, val e]) w;
                          w2 = krk_push (OBJECT_VAL outValue) w1;
                          w3 = set_obj (AS_OBJECT (argv ! 0)) (DictItems d i') w2
                      in Some (krk_pop w3)))
      | _ \<Rightarrow> Some (TYPE_ERROR w))"

definition dictkeys_call :: "KrkValue list \<Rightarrow> world \<Rightarrow> (KrkValue \<times> world) option" where
  "dictkeys_call argv w =
     (if length argv < 1 then Some (NOT_ENOUGH_ARGS w)
      else case obj_at w (argv ! 0) of
        Some (DictKeys d i) \<Rightarrow>
          (if length argv > 1 then Some (METHOD_TAKES_ERROR w)
           else if \<not> IS_dict w d then None
           else case dictview_call_loop (entries (AS_DICT w d)) i of
                  (None, i') \<Rightarrow>
                     Some (argv ! 0, set_obj (AS_OBJECT (argv ! 0)) (DictKeys d i') w)
                | (Some e, i') \<Rightarrow>
                     (let w1 = krk_push (key e) w;
                          w2 = set_obj (AS_OBJECT (argv ! 0)) (DictKeys d i') w1
                      in Some (krk_pop w2)))
      | _ \<Rightarrow> Some (TYPE_ERROR w))"

definition dictvalues_call :: "KrkValue list \<Rightarrow> world \<Rightarrow> (KrkValue \<times> world) option" where
  "dictvalues_call argv w =
     (if length argv < 1 then Some (NOT_ENOUGH_ARGS w)
      else case obj_at w (argv ! 0) of
        Some (DictValues d i) \<Rightarrow>
          (if length argv > 1 then Some (METHOD_TAKES_ERROR w)
           else if \<not> IS_dict w d then None
           else case dictview_call_loop (entries (AS_DICT w d)) i of
                  (None, i') \<Rightarrow>
                     Some (argv ! 0, set_obj (AS_OBJECT (argv ! 0)) (DictValues d i') w)
                | (Some e, i') \<Rightarrow>
                     (let w1 = krk_push (val e) w;
                          w2 = set_obj (AS_OBJECT (argv ! 0)) (DictValues d i') w1
                      in Some (krk_pop w2)))
      | _ \<Rightarrow> Some (TYPE_ERROR w))"


subsection \<open>dict.\_\_init\_\_\<close>















subsection \<open>Representations\<close>








section \<open>module\_os.c\<close>















text \<open>
  A function has raised: the flag is set and the thread's current exception is an
  exception instance of the heap.
\<close>

definition exception_stored :: "world \<Rightarrow> bool" where
  "exception_stored w =
     (has_exception w \<and>
      (case obj_at w (currentException (thread w)) of
         Some (ExceptionInstance c m) \<Rightarrow> True
       | _ \<Rightarrow> False))"

definition raised_class :: "world \<Rightarrow> Exceptions option" where
  "raised_class w =
     (if has_exception w
      then (case obj_at w (currentException (thread w)) of
              Some (ExceptionInstance c m) \<Rightarrow> Some c
            | _ \<Rightarrow> None)
      else None)"

section \<open>Calls\<close>

text \<open>
  Modelled from the spec: \<^verbatim>\<open>krk_initVM\<close> and \<^verbatim>\<open>krk_setMaximumRecursionDepth\<close> (declared in
  vm.h; vm.c is missing), as far as the call depth goes: the depth of the frame stack is
  bounded by \<^verbatim>\<open>vm.maximumCallDepth\<close>, which starts as \<^verbatim>\<open>KRK_CALL_FRAMES_MAX\<close> and can be
  set. The built-in objects that \<^verbatim>\<open>krk_initVM\<close> creates are left out; a thread inherits
  the low byte of the flags.
\<close>

definition krk_initVM :: "32 word \<Rightarrow> world" where
  "krk_initVM fl =
     \<lparr>heap = [],
      thread = \<lparr>frames = [], stack = [], currentException = NONE_VAL, flags = fl AND 255\<rparr>,
      maximumCallDepth = KRK_CALL_FRAMES_MAX\<rparr>"



definition set_stack :: "KrkValue list \<Rightarrow> world \<Rightarrow> world" where
  "set_stack st w = w\<lparr>thread := (thread w)\<lparr>stack := st\<rparr>\<rparr>"

definition push_frame :: "KrkCallFrame \<Rightarrow> world \<Rightarrow> world" where
  "push_frame f w = w\<lparr>thread := (thread w)\<lparr>frames := frames (thread w) @ [f]\<rparr>\<rparr>"




section \<open>Example states\<close>

text \<open>
  A heap holding the strings \<^verbatim>\<open>'a'\<close>, \<^verbatim>\<open>'b'\<close> and \<^verbatim>\<open>'c'\<close>, and the table of the dict
  \<^verbatim>\<open>{1: 'a', 2: 'b'}\<close> as \<^verbatim>\<open>dictOf(1, 'a', 2, 'b')\<close> builds it.
\<close>

definition ex_heap :: "KrkObj list" where
  "ex_heap = [String ''a'', String ''b'', String ''c'']"

definition ex_world :: world where
  "ex_world = (krk_initVM 0)\<lparr>heap := ex_heap\<rparr>"

definition ex_table :: KrkTable where
  "ex_table =
     \<lparr>count = 2,
      entries = [\<lparr>key = KWARGS_VAL 0, val = KWARGS_VAL 0\<rparr>,
                 \<lparr>key = INTEGER_VAL 1, val = OBJECT_VAL 0\<rparr>,
                 \<lparr>key = INTEGER_VAL 2, val = OBJECT_VAL 1\<rparr>,
                 \<lparr>key = KWARGS_VAL 0, val = KWARGS_VAL 0\<rparr>]\<rparr>"

definition ex_dict_world :: world where
  "ex_dict_world = ex_world\<lparr>heap := ex_heap @ [Dict False ex_table]\<rparr>"

definition no_reprer :: reprer where
  "no_reprer v w = None"



text \<open>
  An iterator state over the entries \<open>es\<close>: slot \<open>j\<close> is the next slot from \<open>i\<close> onwards that
  holds an entry, or every slot from \<open>i\<close> onwards has been consumed.
\<close>

definition next_slot :: "KrkTableEntry list \<Rightarrow> nat \<Rightarrow> nat \<Rightarrow> bool" where
  "next_slot es i j =
     (i \<le> j \<and> j < length es \<and> \<not> IS_KWARGS (key (es ! j)) \<and>
      list_all (\<lambda>m. IS_KWARGS (key (es ! m))) [i..<j])"

definition all_consumed :: "KrkTableEntry list \<Rightarrow> nat \<Rightarrow> bool" where
  "all_consumed es i = list_all (\<lambda>m. IS_KWARGS (key (es ! m))) [i..<length es]"

text \<open>
  The example dict with a keys view at slot 0, an items view at slot 2 and a values view
  past the last slot.
\<close>

definition ex_view_world :: world where
  "ex_view_world =
     ex_world\<lparr>heap := ex_heap @ [Dict False ex_table, DictKeys (OBJECT_VAL 3) 0,
                                  DictItems (OBJECT_VAL 3) 2, DictValues (OBJECT_VAL 3) 4]\<rparr>"















section \<open>Properties of the hash table\<close>

lemma valuesEqual_refl: "krk_valuesEqual a a"
  by (cases a) (auto simp: krk_valuesEqual_def)

lemma valuesEqual_sym: "krk_valuesEqual a b \<Longrightarrow> krk_valuesEqual b a"
  by (auto simp: krk_valuesEqual_def split: option.splits)

lemma valuesEqual_trans: "krk_valuesEqual a b \<Longrightarrow> krk_valuesEqual b c \<Longrightarrow> krk_valuesEqual a c"
  by (auto simp: krk_valuesEqual_def split: option.splits)

lemma valuesEqual_hash: "krk_valuesEqual a b \<Longrightarrow> krk_hashValue a = krk_hashValue b"
  by (cases a; cases b) (auto simp: krk_valuesEqual_def split: if_splits)

lemma valuesEqual_kwargs: "krk_valuesEqual a b \<Longrightarrow> IS_KWARGS a = IS_KWARGS b"
  by (cases a; cases b) (auto simp: krk_valuesEqual_def)

lemma valuesEqual_right_cong:
  "krk_valuesEqual k k' \<Longrightarrow> krk_valuesEqual x k = krk_valuesEqual x k'"
  by (meson valuesEqual_sym valuesEqual_trans)

lemma probe_cong:
  "krk_valuesEqual k k' \<Longrightarrow> probe es k is tomb = probe es k' is tomb"
  by (induction "is" arbitrary: tomb) (simp_all add: valuesEqual_right_cong)

lemma probe_Some_tomb:
  "probe es k is (Some t) = Some r \<Longrightarrow> r = t \<or> (r \<in> set is \<and> \<not> IS_KWARGS (key (es ! r)))"
  by (induction "is" arbitrary: t) (auto split: if_splits)

lemma probe_live:
  "probe es k is tomb = Some r \<Longrightarrow> \<not> IS_KWARGS (key (es ! r)) \<Longrightarrow>
   (\<forall>t. tomb = Some t \<longrightarrow> IS_KWARGS (key (es ! t))) \<Longrightarrow>
   r \<in> set is \<and> krk_valuesEqual (key (es ! r)) k"
proof (induction "is" arbitrary: tomb)
  case Nil
  then show ?case by auto
next
  case (Cons i "is")
  show ?case
  proof (cases "IS_KWARGS (key (es ! i))")
    case True
    then show ?thesis using Cons.prems Cons.IH[of "case tomb of None \<Rightarrow> Some i | Some t \<Rightarrow> Some t"]
      by (auto split: if_splits option.splits)
  next
    case False
    then show ?thesis using Cons.prems Cons.IH[of tomb]
      by (auto split: if_splits)
  qed
qed

lemma probe_not_None:
  "\<exists>i\<in>set is. IS_KWARGS (key (es ! i)) \<Longrightarrow> probe es k is tomb \<noteq> None"
proof (induction "is" arbitrary: tomb)
  case Nil
  then show ?case by simp
next
  case (Cons i "is")
  have tomb_some: "\<And>t. probe es k is (Some t) \<noteq> None"
    by (induction "is") (auto split: option.splits)
  show ?case using Cons tomb_some
    by (auto split: option.splits)
qed

lemma mod_shift_inj_le:
  fixes h :: nat
  assumes "x \<le> y" "y < cap" "(h + x) mod cap = (h + y) mod cap"
  shows "x = y"
proof -
  have le: "h + x \<le> h + y" using assms by simp
  have "(h + y) mod cap = (h + x) mod cap" using assms by simp
  then have "cap dvd (h + y) - (h + x)"
    using mod_eq_dvd_iff_nat[OF le, of cap] by simp
  then have d: "cap dvd y - x" by simp
  have "y - x < cap" using assms by simp
  with d have "y - x = 0"
    using nat_dvd_not_less by blast
  with assms show ?thesis by simp
qed

lemma probe_seq_set: "set (probe_seq h cap) = {0..<cap}"
proof -
  have inj: "inj_on (\<lambda>j. (h + j) mod cap) {0..<cap}"
  proof (rule inj_onI)
    fix x y assume x: "x \<in> {0..<cap}" and y: "y \<in> {0..<cap}"
      and e: "(h + x) mod cap = (h + y) mod cap"
    show "x = y"
    proof (cases "x \<le> y")
      case True
      then show ?thesis using mod_shift_inj_le[of x y cap h] y e by simp
    next
      case False
      then show ?thesis using mod_shift_inj_le[of y x cap h] x e by simp
    qed
  qed
  have sub: "(\<lambda>j. (h + j) mod cap) ` {0..<cap} \<subseteq> {0..<cap}"
    by auto
  have "card ((\<lambda>j. (h + j) mod cap) ` {0..<cap}) = card {0..<cap}"
    using inj by (rule card_image)
  then have "(\<lambda>j. (h + j) mod cap) ` {0..<cap} = {0..<cap}"
    using sub by (simp add: card_subset_eq)
  then show ?thesis by (simp add: probe_seq_def)
qed

lemma probe_same_class:
  "(\<And>i. i \<in> set is \<Longrightarrow> key (es' ! i) = key (es ! i) \<or>
       (\<not> IS_KWARGS (key (es ! i)) \<and> \<not> IS_KWARGS (key (es' ! i)) \<and>
        krk_valuesEqual (key (es' ! i)) k = krk_valuesEqual (key (es ! i)) k)) \<Longrightarrow>
   probe es' k is tomb = probe es k is tomb"
proof (induction "is" arbitrary: tomb)
  case Nil
  then show ?case by simp
next
  case (Cons i "is")
  have hd: "key (es' ! i) = key (es ! i) \<or>
       (\<not> IS_KWARGS (key (es ! i)) \<and> \<not> IS_KWARGS (key (es' ! i)) \<and>
        krk_valuesEqual (key (es' ! i)) k = krk_valuesEqual (key (es ! i)) k)"
    using Cons.prems[of i] by simp
  have tl: "\<And>tomb. probe es' k is tomb = probe es k is tomb"
    using Cons.IH Cons.prems by simp
  show ?case using hd tl by auto
qed

lemma probe_fill:
  "probe es k is tomb = Some j \<Longrightarrow> \<not> IS_KWARGS (key (es ! j)) \<Longrightarrow>
   (\<forall>t. tomb = Some t \<longrightarrow> IS_KWARGS (key (es ! t))) \<Longrightarrow>
   IS_KWARGS (key (es ! s)) \<Longrightarrow> s < length es \<Longrightarrow>
   \<not> IS_KWARGS (key e) \<Longrightarrow> \<not> krk_valuesEqual (key e) k \<Longrightarrow>
   probe (es[s := e]) k is tomb' = Some j"
proof (induction "is" arbitrary: tomb tomb')
  case Nil
  then show ?case by auto
next
  case (Cons i "is")
  show ?case
  proof (cases "IS_KWARGS (key (es ! i))")
    case True
    let ?t = "case tomb of None \<Rightarrow> Some i | Some t \<Rightarrow> Some t"
    have inv: "\<forall>t. ?t = Some t \<longrightarrow> IS_KWARGS (key (es ! t))"
      using True Cons.prems(3) by (auto split: option.splits)
    have ne: "key (es ! i) \<noteq> KWARGS_VAL 0"
      using Cons.prems(1,2) inv True by (auto split: option.splits)
    then have rec: "probe es k is ?t = Some j"
      using Cons.prems(1) True by simp
    have step: "\<And>tomb'. probe (es[s := e]) k is tomb' = Some j"
      using Cons.IH[OF rec Cons.prems(2) inv Cons.prems(4,5,6,7)] .
    show ?thesis
    proof (cases "i = s")
      case True
      then show ?thesis using step Cons.prems(5,6,7) by simp
    next
      case False
      then show ?thesis using step True ne by simp
    qed
  next
    case False
    then have "i \<noteq> s" using Cons.prems(4) by auto
    then have same: "(es[s := e]) ! i = es ! i" by simp
    show ?thesis
    proof (cases "krk_valuesEqual (key (es ! i)) k")
      case True
      then show ?thesis using False same Cons.prems(1) by simp
    next
      case nm: False
      then have rec: "probe es k is tomb = Some j"
        using Cons.prems(1) False by simp
      show ?thesis
        using Cons.IH[OF rec Cons.prems(2,3,4,5,6,7)] False nm same by simp
    qed
  qed
qed

lemma probe_self:
  "probe es k is None = Some s \<Longrightarrow> IS_KWARGS (key (es ! s)) \<Longrightarrow> s < length es \<Longrightarrow>
   \<not> IS_KWARGS k \<Longrightarrow>
   probe (es[s := \<lparr>key = k, val = v\<rparr>]) k is tomb' = Some s"
proof (induction "is")
  case Nil
  then show ?case by simp
next
  case (Cons i "is")
  show ?case
  proof (cases "IS_KWARGS (key (es ! i))")
    case True
    have "s = i"
    proof (cases "key (es ! i) = KWARGS_VAL 0")
      case True
      then show ?thesis using Cons.prems(1) by simp
    next
      case False
      then have "probe es k is (Some i) = Some s"
        using Cons.prems(1) True by simp
      then show ?thesis using probe_Some_tomb Cons.prems(2) by blast
    qed
    then show ?thesis using Cons.prems(3,4) by (simp add: valuesEqual_refl)
  next
    case False
    then have ne: "i \<noteq> s" using Cons.prems(2) by auto
    have nm: "\<not> krk_valuesEqual (key (es ! i)) k"
      using Cons.prems(1,2) False by auto
    then have "probe es k is None = Some s" using Cons.prems(1) False by simp
    then show ?thesis using Cons.IH Cons.prems(2,3,4) False nm ne by simp
  qed
qed

lemma table_reach_iff:
  "table_reach es \<longleftrightarrow>
   (\<forall>i<length es. \<not> IS_KWARGS (key (es ! i)) \<longrightarrow> krk_findEntry es (key (es ! i)) = Some i)"
  by (auto simp: table_reach_def list_all_iff)

lemma findEntry_cong:
  "krk_valuesEqual k k' \<Longrightarrow> krk_findEntry es k = krk_findEntry es k'"
  by (simp add: krk_findEntry_def valuesEqual_hash probe_cong)

lemma findEntry_bound:
  "krk_findEntry es k = Some i \<Longrightarrow> i < length es"
proof -
  assume a: "krk_findEntry es k = Some i"
  have "\<And>is tomb r. probe es k is tomb = Some r \<Longrightarrow> r \<in> set is \<or> tomb = Some r"
  proof -
    fix "is" tomb r show "probe es k is tomb = Some r \<Longrightarrow> r \<in> set is \<or> tomb = Some r"
      by (induction "is" arbitrary: tomb) (auto split: if_splits option.splits)
  qed
  from this[of "probe_seq (krk_hashValue k) (length es)" None i] a
  show ?thesis by (simp add: krk_findEntry_def probe_seq_set)
qed

lemma findEntry_live:
  "krk_findEntry es k = Some i \<Longrightarrow> \<not> IS_KWARGS (key (es ! i)) \<Longrightarrow>
   krk_valuesEqual (key (es ! i)) k"
  using probe_live[of es k _ None i] by (simp add: krk_findEntry_def)

lemma reach_present:
  "table_reach es \<Longrightarrow> j < length es \<Longrightarrow> \<not> IS_KWARGS (key (es ! j)) \<Longrightarrow>
   krk_valuesEqual (key (es ! j)) k \<Longrightarrow> krk_findEntry es k = Some j"
  using findEntry_cong[of "key (es ! j)" k es] by (simp add: table_reach_iff)

lemma findEntry_free:
  assumes "length (live_entries es) < length es"
  shows "krk_findEntry es k \<noteq> None"
proof -
  have "\<exists>e\<in>set es. IS_KWARGS (key e)"
  proof (rule ccontr)
    assume "\<not> (\<exists>e\<in>set es. IS_KWARGS (key e))"
    then have "live_entries es = es" by (simp add: live_entries_def)
    with assms show False by simp
  qed
  then obtain i where "i < length es" "IS_KWARGS (key (es ! i))"
    by (auto simp: in_set_conv_nth)
  then have "\<exists>i\<in>set (probe_seq (krk_hashValue k) (length es)). IS_KWARGS (key (es ! i))"
    by (auto simp: probe_seq_set)
  then show ?thesis unfolding krk_findEntry_def by (rule probe_not_None)
qed

lemma valuesEqual_left_cong:
  "krk_valuesEqual k k' \<Longrightarrow> krk_valuesEqual k x = krk_valuesEqual k' x"
  by (meson valuesEqual_sym valuesEqual_trans)

lemma insert_find_self:
  assumes f: "krk_findEntry es k = Some s" and nk: "\<not> IS_KWARGS k"
  shows "krk_findEntry (es[s := \<lparr>key = k, val = v\<rparr>]) k = Some s"
proof (cases "IS_KWARGS (key (es ! s))")
  case True
  then show ?thesis
    using probe_self[of es k _ s v None] f nk findEntry_bound[OF f]
    by (simp add: krk_findEntry_def)
next
  case False
  then have m: "krk_valuesEqual (key (es ! s)) k" using findEntry_live[OF f] by simp
  have "probe (es[s := \<lparr>key = k, val = v\<rparr>]) k (probe_seq (krk_hashValue k) (length es)) None
        = probe es k (probe_seq (krk_hashValue k) (length es)) None"
  proof (rule probe_same_class)
    fix i assume "i \<in> set (probe_seq (krk_hashValue k) (length es))"
    then have "i < length es" by (simp add: probe_seq_set)
    then show "key (es[s := \<lparr>key = k, val = v\<rparr>] ! i) = key (es ! i) \<or>
       (\<not> IS_KWARGS (key (es ! i)) \<and> \<not> IS_KWARGS (key (es[s := \<lparr>key = k, val = v\<rparr>] ! i)) \<and>
        krk_valuesEqual (key (es[s := \<lparr>key = k, val = v\<rparr>] ! i)) k = krk_valuesEqual (key (es ! i)) k)"
      using False m nk by (cases "i = s") (simp_all add: valuesEqual_refl)
  qed
  then show ?thesis using f by (simp add: krk_findEntry_def)
qed

lemma insert_find_other:
  assumes r: "table_reach es" and f: "krk_findEntry es k = Some s" and nk: "\<not> IS_KWARGS k"
    and ne: "\<not> krk_valuesEqual k k'"
    and j: "krk_findEntry es k' = Some j" "\<not> IS_KWARGS (key (es ! j))"
  shows "krk_findEntry (es[s := \<lparr>key = k, val = v\<rparr>]) k' = Some j \<and> j \<noteq> s"
proof (cases "IS_KWARGS (key (es ! s))")
  case True
  have "probe (es[s := \<lparr>key = k, val = v\<rparr>]) k' (probe_seq (krk_hashValue k') (length es)) None = Some j"
    by (rule probe_fill[where tomb = None and tomb' = None])
       (use j True ne nk findEntry_bound[OF f] in \<open>simp_all add: krk_findEntry_def\<close>)
  then show ?thesis using True j by (auto simp: krk_findEntry_def)
next
  case False
  then have m: "krk_valuesEqual (key (es ! s)) k" using findEntry_live[OF f] by simp
  have nm: "\<not> krk_valuesEqual (key (es ! s)) k'"
    using m ne valuesEqual_left_cong by blast
  have js: "j \<noteq> s" using findEntry_live[OF j] nm by auto
  have "probe (es[s := \<lparr>key = k, val = v\<rparr>]) k' (probe_seq (krk_hashValue k') (length es)) None
        = probe es k' (probe_seq (krk_hashValue k') (length es)) None"
  proof (rule probe_same_class)
    fix i assume "i \<in> set (probe_seq (krk_hashValue k') (length es))"
    then have "i < length es" by (simp add: probe_seq_set)
    then show "key (es[s := \<lparr>key = k, val = v\<rparr>] ! i) = key (es ! i) \<or>
       (\<not> IS_KWARGS (key (es ! i)) \<and> \<not> IS_KWARGS (key (es[s := \<lparr>key = k, val = v\<rparr>] ! i)) \<and>
        krk_valuesEqual (key (es[s := \<lparr>key = k, val = v\<rparr>] ! i)) k' = krk_valuesEqual (key (es ! i)) k')"
      using False nm ne nk by (cases "i = s") simp_all
  qed
  then show ?thesis using j js by (simp add: krk_findEntry_def)
qed

lemma insert_reach:
  assumes r: "table_reach es" and f: "krk_findEntry es k = Some s" and nk: "\<not> IS_KWARGS k"
  shows "table_reach (es[s := \<lparr>key = k, val = v\<rparr>])"
  unfolding table_reach_iff
proof (intro allI impI)
  fix i assume i: "i < length (es[s := \<lparr>key = k, val = v\<rparr>])"
    and l: "\<not> IS_KWARGS (key (es[s := \<lparr>key = k, val = v\<rparr>] ! i))"
  show "krk_findEntry (es[s := \<lparr>key = k, val = v\<rparr>]) (key (es[s := \<lparr>key = k, val = v\<rparr>] ! i)) = Some i"
  proof (cases "i = s")
    case True
    then show ?thesis using insert_find_self[OF f nk] i by simp
  next
    case False
    then have same: "es[s := \<lparr>key = k, val = v\<rparr>] ! i = es ! i" by simp
    have li: "\<not> IS_KWARGS (key (es ! i))" using l same by simp
    have fi: "krk_findEntry es (key (es ! i)) = Some i"
      using r i li by (simp add: table_reach_iff)
    have "\<not> krk_valuesEqual k (key (es ! i))"
    proof
      assume "krk_valuesEqual k (key (es ! i))"
      then have "krk_findEntry es k = krk_findEntry es (key (es ! i))" by (rule findEntry_cong)
      with f fi False show False by simp
    qed
    then show ?thesis using insert_find_other[OF r f nk _ fi li] same by simp
  qed
qed

lemma insert_lookup_self:
  assumes f: "krk_findEntry es k = Some s" and nk: "\<not> IS_KWARGS k"
    and e: "krk_valuesEqual k k'"
  shows "slot_lookup (es[s := \<lparr>key = k, val = v\<rparr>]) k' = Some v"
proof -
  have "krk_findEntry (es[s := \<lparr>key = k, val = v\<rparr>]) k' = Some s"
    using insert_find_self[OF f nk] findEntry_cong[OF e] by simp
  then show ?thesis using findEntry_bound[OF f] nk by (simp add: slot_lookup_def)
qed

lemma insert_lookup_other:
  assumes r: "table_reach es" and f: "krk_findEntry es k = Some s" and nk: "\<not> IS_KWARGS k"
    and ne: "\<not> krk_valuesEqual k k'"
  shows "slot_lookup (es[s := \<lparr>key = k, val = v\<rparr>]) k' = slot_lookup es k'"
proof (cases "\<exists>j. krk_findEntry es k' = Some j \<and> \<not> IS_KWARGS (key (es ! j))")
  case True
  then obtain j where j: "krk_findEntry es k' = Some j" "\<not> IS_KWARGS (key (es ! j))" by blast
  have a: "krk_findEntry (es[s := \<lparr>key = k, val = v\<rparr>]) k' = Some j" and b: "s \<noteq> j"
    using insert_find_other[OF r f nk ne j, of v] by auto
  show ?thesis using j a b by (simp add: slot_lookup_def)
next
  case False
  then have none: "slot_lookup es k' = None"
    by (auto simp: slot_lookup_def split: option.splits)
  have "slot_lookup (es[s := \<lparr>key = k, val = v\<rparr>]) k' = None"
  proof (rule ccontr)
    assume "slot_lookup (es[s := \<lparr>key = k, val = v\<rparr>]) k' \<noteq> None"
    then obtain j where j: "krk_findEntry (es[s := \<lparr>key = k, val = v\<rparr>]) k' = Some j"
        "\<not> IS_KWARGS (key (es[s := \<lparr>key = k, val = v\<rparr>] ! j))"
      by (auto simp: slot_lookup_def split: option.splits if_splits)
    have m: "krk_valuesEqual (key (es[s := \<lparr>key = k, val = v\<rparr>] ! j)) k'"
      using findEntry_live[OF j] .
    have jb: "j < length es" using findEntry_bound[OF j(1)] by simp
    have js: "j \<noteq> s" using m ne jb by auto
    then have "krk_findEntry es k' = Some j"
      using reach_present[OF r jb] j(2) m by simp
    with False j(2) js show False by simp
  qed
  with none show ?thesis by simp
qed

lemma live_entries_update:
  assumes "s < length es" "\<not> IS_KWARGS (key e)"
  shows "length (live_entries (es[s := e])) =
         (if IS_KWARGS (key (es ! s)) then length (live_entries es) + 1 else length (live_entries es))"
proof -
  have a: "es[s := e] = take s es @ e # drop (Suc s) es"
    using assms by (simp add: upd_conv_take_nth_drop)
  have b: "es = take s es @ es ! s # drop (Suc s) es"
    using assms by (simp add: id_take_nth_drop)
  have "length (live_entries es) = length (live_entries (take s es @ es ! s # drop (Suc s) es))"
    using b by simp
  then show ?thesis unfolding a using assms
    by (simp add: live_entries_def)
qed

lemma lookup_find:
  assumes r: "table_reach es"
  shows "slot_lookup es k = entries_lookup es k"
proof (cases "find (\<lambda>e. \<not> IS_KWARGS (key e) \<and> krk_valuesEqual (key e) k) es")
  case None
  then have no: "\<And>e. e \<in> set es \<Longrightarrow> IS_KWARGS (key e) \<or> \<not> krk_valuesEqual (key e) k"
    by (auto simp: find_None_iff)
  have "slot_lookup es k = None"
  proof (rule ccontr)
    assume "slot_lookup es k \<noteq> None"
    then obtain j where j: "krk_findEntry es k = Some j" "\<not> IS_KWARGS (key (es ! j))"
      by (auto simp: slot_lookup_def split: option.splits if_splits)
    have "es ! j \<in> set es" using findEntry_bound[OF j(1)] by simp
    with no[of "es ! j"] j(2) findEntry_live[OF j] show False by simp
  qed
  with None show ?thesis by (simp add: entries_lookup_def)
next
  case (Some e)
  then obtain i where i: "i < length es" "\<not> IS_KWARGS (key (es ! i))"
      "krk_valuesEqual (key (es ! i)) k" "e = es ! i"
    by (auto simp: find_Some_iff)
  have "krk_findEntry es k = Some i" using reach_present[OF r i(1,2,3)] .
  then show ?thesis using Some i by (simp add: slot_lookup_def entries_lookup_def)
qed

lemma keys_distinct_nth:
  "(\<And>i j. i < j \<Longrightarrow> j < length xs \<Longrightarrow> \<not> IS_KWARGS (key (xs ! i)) \<Longrightarrow>
      \<not> IS_KWARGS (key (xs ! j)) \<Longrightarrow> \<not> krk_valuesEqual (key (xs ! i)) (key (xs ! j)))
   \<Longrightarrow> keys_distinct xs"
proof (induction xs)
  case Nil
  then show ?case by simp
next
  case (Cons x xs)
  have tl: "keys_distinct xs"
  proof (rule Cons.IH)
    fix i j assume "i < j" "j < length xs" "\<not> IS_KWARGS (key (xs ! i))" "\<not> IS_KWARGS (key (xs ! j))"
    then show "\<not> krk_valuesEqual (key (xs ! i)) (key (xs ! j))"
      using Cons.prems[of "Suc i" "Suc j"] by simp
  qed
  have hd: "\<forall>e\<in>set xs. IS_KWARGS (key x) \<or> IS_KWARGS (key e) \<or> \<not> krk_valuesEqual (key x) (key e)"
  proof
    fix e assume "e \<in> set xs"
    then obtain j where j: "j < length xs" "e = xs ! j" by (auto simp: in_set_conv_nth)
    then show "IS_KWARGS (key x) \<or> IS_KWARGS (key e) \<or> \<not> krk_valuesEqual (key x) (key e)"
      using Cons.prems[of 0 "Suc j"] by auto
  qed
  show ?case using hd tl by simp
qed

lemma reach_keys_distinct:
  assumes r: "table_reach es"
  shows "keys_distinct es"
proof (rule keys_distinct_nth)
  fix i j assume ij: "i < j" "j < length es" and l: "\<not> IS_KWARGS (key (es ! i))"
    "\<not> IS_KWARGS (key (es ! j))"
  show "\<not> krk_valuesEqual (key (es ! i)) (key (es ! j))"
  proof
    assume "krk_valuesEqual (key (es ! i)) (key (es ! j))"
    then have "krk_findEntry es (key (es ! i)) = krk_findEntry es (key (es ! j))"
      by (rule findEntry_cong)
    then show False using r ij l by (simp add: table_reach_iff)
  qed
qed

lemma reinsert_fold:
  "table_inv acc \<Longrightarrow> count acc + length (live_entries xs) < length (entries acc) \<Longrightarrow>
   keys_distinct xs \<Longrightarrow>
   (\<forall>e\<in>set xs. \<not> IS_KWARGS (key e) \<longrightarrow> slot_lookup (entries acc) (key e) = None) \<Longrightarrow>
   table_inv (fold reinsert xs acc) \<and>
   length (entries (fold reinsert xs acc)) = length (entries acc) \<and>
   count (fold reinsert xs acc) = count acc + length (live_entries xs) \<and>
   (\<forall>k. slot_lookup (entries (fold reinsert xs acc)) k =
        (case entries_lookup xs k of Some v \<Rightarrow> Some v | None \<Rightarrow> slot_lookup (entries acc) k))"
proof (induction xs arbitrary: acc)
  case Nil
  then show ?case by (simp add: entries_lookup_def live_entries_def)
next
  case (Cons x xs)
  show ?case
  proof (cases "IS_KWARGS (key x)")
    case True
    have "table_inv (fold reinsert xs acc) \<and>
      length (entries (fold reinsert xs acc)) = length (entries acc) \<and>
      count (fold reinsert xs acc) = count acc + length (live_entries xs) \<and>
      (\<forall>k. slot_lookup (entries (fold reinsert xs acc)) k =
        (case entries_lookup xs k of Some v \<Rightarrow> Some v | None \<Rightarrow> slot_lookup (entries acc) k))"
      using Cons.prems True by (intro Cons.IH) (simp_all add: live_entries_def)
    moreover have "reinsert x acc = acc" using True by (simp add: reinsert_def)
    ultimately show ?thesis using True
      by (simp add: live_entries_def entries_lookup_def)
  next
    case False
    let ?es = "entries acc"
    have inv: "table_reach ?es" "count acc = length (live_entries ?es)"
      using Cons.prems(1) by (simp_all add: table_inv_def)
    have free: "length (live_entries ?es) < length ?es"
      using Cons.prems(2) inv by simp
    then obtain s where s: "krk_findEntry ?es (key x) = Some s"
      using findEntry_free[of ?es "key x"] by auto
    have sb: "s < length ?es" using findEntry_bound[OF s] .
    have sk: "IS_KWARGS (key (?es ! s))"
      using Cons.prems(4) False s by (auto simp: slot_lookup_def split: if_splits)
    have xeq: "\<lparr>key = key x, val = val x\<rparr> = x" by (cases x) simp
    let ?acc' = "\<lparr>count = count acc + 1, entries = ?es[s := x]\<rparr>"
    have re: "reinsert x acc = ?acc'" using False s by (simp add: reinsert_def)
    have reach': "table_reach (?es[s := x])"
      using insert_reach[OF inv(1) s False, of "val x"] by (simp add: xeq)
    have cnt': "length (live_entries (?es[s := x])) = length (live_entries ?es) + 1"
      using live_entries_update[OF sb False] sk by simp
    have inv': "table_inv ?acc'" using reach' cnt' inv by (simp add: table_inv_def)
    have other: "\<And>k'. \<not> krk_valuesEqual (key x) k' \<Longrightarrow>
        slot_lookup (?es[s := x]) k' = slot_lookup ?es k'"
      using insert_lookup_other[OF inv(1) s False, of _ "val x"] by (simp add: xeq)
    have self: "\<And>k'. krk_valuesEqual (key x) k' \<Longrightarrow> slot_lookup (?es[s := x]) k' = Some (val x)"
      using insert_lookup_self[OF s False, of _ "val x"] by (simp add: xeq)
    have dx: "\<forall>e\<in>set xs. IS_KWARGS (key e) \<or> \<not> krk_valuesEqual (key x) (key e)"
      using Cons.prems(3) False by auto
    have p4: "\<forall>e\<in>set xs. \<not> IS_KWARGS (key e) \<longrightarrow> slot_lookup (entries ?acc') (key e) = None"
      using Cons.prems(4) dx other by auto
    have p2: "count ?acc' + length (live_entries xs) < length (entries ?acc')"
      using Cons.prems(2) False by (simp add: live_entries_def)
    have IH: "table_inv (fold reinsert xs ?acc') \<and>
      length (entries (fold reinsert xs ?acc')) = length (entries ?acc') \<and>
      count (fold reinsert xs ?acc') = count ?acc' + length (live_entries xs) \<and>
      (\<forall>k. slot_lookup (entries (fold reinsert xs ?acc')) k =
        (case entries_lookup xs k of Some v \<Rightarrow> Some v | None \<Rightarrow> slot_lookup (entries ?acc') k))"
      using Cons.prems(3) by (intro Cons.IH[OF inv' p2 _ p4]) simp
    have look: "\<And>k. (case entries_lookup xs k of Some v \<Rightarrow> Some v
                      | None \<Rightarrow> slot_lookup (entries ?acc') k) =
         (case entries_lookup (x # xs) k of Some v \<Rightarrow> Some v | None \<Rightarrow> slot_lookup ?es k)"
    proof -
      fix k
      show "(case entries_lookup xs k of Some v \<Rightarrow> Some v
                      | None \<Rightarrow> slot_lookup (entries ?acc') k) =
         (case entries_lookup (x # xs) k of Some v \<Rightarrow> Some v | None \<Rightarrow> slot_lookup ?es k)"
      proof (cases "krk_valuesEqual (key x) k")
        case True
        have "\<And>e. e \<in> set xs \<Longrightarrow> IS_KWARGS (key e) \<or> \<not> krk_valuesEqual (key e) k"
          using dx True by (meson valuesEqual_sym valuesEqual_trans)
        then have "entries_lookup xs k = None"
          by (auto simp: entries_lookup_def find_None_iff)
        then show ?thesis using True False self[of k] by (simp add: entries_lookup_def)
      next
        case nm: False
        then show ?thesis using other[of k] by (simp add: entries_lookup_def split: option.splits)
      qed
    qed
    show ?thesis using IH re look False by (simp add: live_entries_def)
  qed
qed

lemma replicate_empty_inv:
  "table_inv \<lparr>count = 0, entries = replicate n EMPTY_ENTRY\<rparr>"
  by (simp add: table_inv_def live_entries_def table_reach_iff EMPTY_ENTRY_def)

lemma replicate_empty_lookup:
  "slot_lookup (replicate n EMPTY_ENTRY) k = None"
proof -
  have "\<And>j. krk_findEntry (replicate n EMPTY_ENTRY) k = Some j \<Longrightarrow>
      IS_KWARGS (key (replicate n EMPTY_ENTRY ! j))"
    using findEntry_bound[of "replicate n EMPTY_ENTRY" k] by (simp add: EMPTY_ENTRY_def)
  then show ?thesis by (auto simp: slot_lookup_def split: option.splits)
qed

lemma adjustCapacity_correct:
  assumes inv: "table_inv t" and n: "count t < n"
  shows "table_inv (krk_tableAdjustCapacity t n) \<and>
         capacity (krk_tableAdjustCapacity t n) = n \<and>
         count (krk_tableAdjustCapacity t n) = count t \<and>
         (\<forall>k. slot_lookup (entries (krk_tableAdjustCapacity t n)) k = slot_lookup (entries t) k)"
proof -
  let ?acc = "\<lparr>count = 0, entries = replicate n EMPTY_ENTRY\<rparr>"
  have r: "table_reach (entries t)" and c: "count t = length (live_entries (entries t))"
    using inv by (simp_all add: table_inv_def)
  have "table_inv (fold reinsert (entries t) ?acc) \<and>
   length (entries (fold reinsert (entries t) ?acc)) = length (entries ?acc) \<and>
   count (fold reinsert (entries t) ?acc) = count ?acc + length (live_entries (entries t)) \<and>
   (\<forall>k. slot_lookup (entries (fold reinsert (entries t) ?acc)) k =
        (case entries_lookup (entries t) k of Some v \<Rightarrow> Some v
         | None \<Rightarrow> slot_lookup (entries ?acc) k))"
    by (rule reinsert_fold)
       (use n c reach_keys_distinct[OF r] in \<open>simp_all add: replicate_empty_inv replicate_empty_lookup\<close>)
  then show ?thesis
    using c lookup_find[OF r]
    by (auto simp: krk_tableAdjustCapacity_def replicate_empty_lookup split: option.splits)
qed

lemma tableGet_slot:
  assumes "table_inv t"
  shows "krk_tableGet t k = slot_lookup (entries t) k"
proof (cases "count t = 0")
  case True
  then have "live_entries (entries t) = []" using assms by (simp add: table_inv_def)
  then have "\<forall>e\<in>set (entries t). IS_KWARGS (key e)"
    by (simp add: live_entries_def filter_empty_conv)
  then have "\<And>j. j < length (entries t) \<Longrightarrow> IS_KWARGS (key (entries t ! j))" by simp
  then have "slot_lookup (entries t) k = None"
    using findEntry_bound[of "entries t" k]
    by (auto simp: slot_lookup_def split: option.splits)
  then show ?thesis using True by (simp add: krk_tableGet_def)
next
  case False
  then show ?thesis by (simp add: krk_tableGet_def slot_lookup_def)
qed


lemma count_le_capacity: "table_inv t \<Longrightarrow> count t \<le> capacity t"
  by (simp add: table_inv_def live_entries_def)

lemma tableSet_correct:
  assumes inv: "table_inv t" and nk: "\<not> IS_KWARGS k"
  shows "table_inv (snd (krk_tableSet t k v)) \<and>
         (\<forall>k'. krk_tableGet (snd (krk_tableSet t k v)) k' =
                (if krk_valuesEqual k k' then Some v else krk_tableGet t k')) \<and>
         fst (krk_tableSet t k v) = (krk_tableGet t k = None) \<and>
         count (snd (krk_tableSet t k v)) =
           (if krk_tableGet t k = None then count t + 1 else count t)"
proof -
  define t1 where "t1 = (if 4 * (count t + 1) > 3 * capacity t
                then krk_tableAdjustCapacity t (GROW_CAPACITY (capacity t)) else t)"
  have g: "count t < GROW_CAPACITY (capacity t)"
    using count_le_capacity[OF inv] by (simp add: GROW_CAPACITY_def)
  have t1: "table_inv t1" "count t1 = count t" "count t1 < capacity t1"
    "\<And>k. slot_lookup (entries t1) k = slot_lookup (entries t) k"
    using adjustCapacity_correct[OF inv g] inv g by (auto simp: t1_def)
  let ?es = "entries t1"
  have r: "table_reach ?es" and c: "count t1 = length (live_entries ?es)"
    using t1(1) by (simp_all add: table_inv_def)
  obtain s where s: "krk_findEntry ?es k = Some s"
    using findEntry_free[of ?es k] t1(3) c by auto
  have sb: "s < length ?es" using findEntry_bound[OF s] .
  let ?new = "IS_KWARGS (key (?es ! s))"
  let ?t' = "\<lparr>count = (if ?new then count t1 + 1 else count t1),
             entries = ?es[s := \<lparr>key = k, val = v\<rparr>]\<rparr>"
  have "krk_tableSet t k v = (case krk_findEntry (entries t1) k of
           None \<Rightarrow> (False, t1)
         | Some i \<Rightarrow>
             (let isNewKey = IS_KWARGS (key (entries t1 ! i))
              in (isNewKey,
                  \<lparr>count = (if isNewKey then count t1 + 1 else count t1),
                   entries = (entries t1)[i := \<lparr>key = k, val = v\<rparr>]\<rparr>)))"
    unfolding krk_tableSet_def t1_def Let_def ..
  then have res: "krk_tableSet t k v = (?new, ?t')"
    using s by (simp add: Let_def)
  have new: "?new = (krk_tableGet t k = None)"
    using s t1(4)[of k, symmetric] by (simp add: tableGet_slot[OF inv] slot_lookup_def)
  have inv': "table_inv ?t'"
    using insert_reach[OF r s nk, of v] live_entries_update[OF sb, of "\<lparr>key = k, val = v\<rparr>"] nk c
    by (simp add: table_inv_def)
  have look: "\<And>k'. krk_tableGet ?t' k' = (if krk_valuesEqual k k' then Some v else krk_tableGet t k')"
  proof -
    fix k'
    show "krk_tableGet ?t' k' = (if krk_valuesEqual k k' then Some v else krk_tableGet t k')"
      using insert_lookup_self[OF s nk, of k' v] insert_lookup_other[OF r s nk, of k' v] t1(4)[of k']
      by (simp add: tableGet_slot[OF inv'] tableGet_slot[OF inv])
  qed
  show ?thesis using res inv' look new t1(2) by simp
qed


section \<open>Objects in the heap\<close>

lemma obj_at_Some_iff:
  "obj_at w v = Some obj \<longleftrightarrow> (\<exists>a. v = OBJECT_VAL a \<and> a < length (heap w) \<and> heap w ! a = obj)"
  by (cases v) (auto simp: obj_at_def)

lemma dict_facts:
  assumes "obj_at w d = Some (Dict f t)"
  shows "IS_dict w d" "AS_DICT w d = t" "IN_REPR w d = f"
  using assms by (simp_all add: IS_dict_def AS_DICT_def IN_REPR_def)

lemma obj_at_set_entries:
  assumes "obj_at w d = Some (Dict f t)"
  shows "obj_at (set_entries d t' w) d = Some (Dict f t')"
proof -
  obtain a where a: "d = OBJECT_VAL a" "a < length (heap w)" "heap w ! a = Dict f t"
    using assms by (auto simp: obj_at_Some_iff)
  then show ?thesis by (simp add: set_entries_def set_obj_def IN_REPR_def obj_at_def)
qed

lemma thread_set_entries [simp]: "thread (set_entries d t' w) = thread w"
  by (simp add: set_entries_def set_obj_def)

lemma tableGet_not_kwargs:
  assumes "table_inv t" "krk_tableGet t k = Some v"
  shows "\<not> IS_KWARGS k"
proof -
  obtain i where i: "krk_findEntry (entries t) k = Some i" "\<not> IS_KWARGS (key (entries t ! i))"
    using assms(2) by (auto simp: krk_tableGet_def split: if_splits option.splits)
  from findEntry_live[OF i] i(2) show ?thesis using valuesEqual_kwargs by blast
qed

lemma ex_dict_of:
  "krk_dict_of [INTEGER_VAL 1, OBJECT_VAL 0, INTEGER_VAL 2, OBJECT_VAL 1] ex_world
   = (OBJECT_VAL 3, ex_dict_world)"
  by code_simp

lemma ex_table_inv: "table_inv ex_table"
  by code_simp

lemma ex_dict_at: "obj_at ex_dict_world (OBJECT_VAL 3) = Some (Dict False ex_table)"
  by code_simp

section \<open>Claims about the dict methods\<close>

text \<open>
  C6. Setting a key that is present in a dict makes the next lookup of the key return the
  value set and leaves the length as it was; the thread state is untouched. After
  \<^verbatim>\<open>d = {1:'a', 2:'b'}; d[1] = 'c'\<close>, \<^verbatim>\<open>d[1]\<close> is \<^verbatim>\<open>'c'\<close> and \<^verbatim>\<open>len(d)\<close> is 2.
\<close>

theorem setitem_present_getitem_len:
  assumes d: "obj_at w d = Some (Dict f t)" and inv: "table_inv t"
    and present: "krk_tableGet t k \<noteq> None"
  shows "fst (dict_setitem [d, k, v] w) = v \<and>
         dict_getitem rp [d, k] (snd (dict_setitem [d, k, v] w))
           = Some (v, snd (dict_setitem [d, k, v] w)) \<and>
         fst (dict_len [d] (snd (dict_setitem [d, k, v] w))) = fst (dict_len [d] w) \<and>
         thread (snd (dict_setitem [d, k, v] w)) = thread w"
proof -
  obtain old where old: "krk_tableGet t k = Some old" using present by auto
  have nk: "\<not> IS_KWARGS k" using tableGet_not_kwargs[OF inv old] .
  let ?t' = "snd (krk_tableSet t k v)"
  let ?w' = "set_entries d ?t' w"
  have set: "dict_setitem [d, k, v] w = (v, ?w')"
    using dict_facts[OF d] by (simp add: dict_setitem_def)
  have d': "obj_at ?w' d = Some (Dict f ?t')" using obj_at_set_entries[OF d] .
  have ts: "krk_tableGet ?t' k = Some v" "count ?t' = count t"
    using tableSet_correct[OF inv nk, of v] old by (simp_all add: valuesEqual_refl)
  have get: "dict_getitem rp [d, k] ?w' = Some (v, ?w')"
    using dict_facts[OF d'] ts by (simp add: dict_getitem_def)
  have len: "fst (dict_len [d] ?w') = fst (dict_len [d] w)"
    using dict_facts[OF d'] dict_facts[OF d] ts by (simp add: dict_len_def)
  show ?thesis using set get len by simp
qed

theorem setitem_present_getitem_len_witness:
  "obj_at ex_dict_world (OBJECT_VAL 3) = Some (Dict False ex_table) \<and>
   table_inv ex_table \<and>
   krk_tableGet ex_table (INTEGER_VAL 1) \<noteq> None \<and>
   dict_getitem no_reprer [OBJECT_VAL 3, INTEGER_VAL 1]
     (snd (dict_setitem [OBJECT_VAL 3, INTEGER_VAL 1, OBJECT_VAL 2] ex_dict_world))
     = Some (OBJECT_VAL 2, snd (dict_setitem [OBJECT_VAL 3, INTEGER_VAL 1, OBJECT_VAL 2] ex_dict_world)) \<and>
   fst (dict_len [OBJECT_VAL 3]
     (snd (dict_setitem [OBJECT_VAL 3, INTEGER_VAL 1, OBJECT_VAL 2] ex_dict_world)))
     = INTEGER_VAL 2"
proof -
  have p: "krk_tableGet ex_table (INTEGER_VAL 1) \<noteq> None" by code_simp
  have l: "fst (dict_len [OBJECT_VAL 3] ex_dict_world) = INTEGER_VAL 2" by code_simp
  show ?thesis
    using setitem_present_getitem_len[OF ex_dict_at ex_table_inv p, of "OBJECT_VAL 2" no_reprer]
      ex_dict_at ex_table_inv p l by simp
qed

section \<open>The exception state\<close>

lemma runtimeError_fst [simp]: "fst (krk_runtimeError c m w) = NONE_VAL"
  by (simp add: krk_runtimeError_def alloc_def)

lemma runtimeError_heap [simp]:
  "heap (snd (krk_runtimeError c m w)) = heap w @ [ExceptionInstance c m]"
  by (simp add: krk_runtimeError_def alloc_def)

lemma runtimeError_thread:
  "thread (snd (krk_runtimeError c m w)) =
     (thread w)\<lparr>currentException := OBJECT_VAL (length (heap w)),
               flags := flags (thread w) OR KRK_THREAD_HAS_EXCEPTION\<rparr>"
  by (simp add: krk_runtimeError_def alloc_def)

lemma runtimeError_depth [simp]:
  "maximumCallDepth (snd (krk_runtimeError c m w)) = maximumCallDepth w"
  by (simp add: krk_runtimeError_def alloc_def)

lemma runtimeError_has_exception [simp]: "has_exception (snd (krk_runtimeError c m w))"
  by (simp add: has_exception_def runtimeError_thread KRK_THREAD_HAS_EXCEPTION_def)

lemma runtimeError_raised_class [simp]: "raised_class (snd (krk_runtimeError c m w)) = Some c"
  by (simp add: raised_class_def obj_at_def runtimeError_thread)

lemma runtimeError_stored [simp]: "exception_stored (snd (krk_runtimeError c m w))"
  by (simp add: exception_stored_def obj_at_def runtimeError_thread)

lemma runtimeError_eq: "krk_runtimeError c m w = (NONE_VAL, snd (krk_runtimeError c m w))"
  by (simp add: krk_runtimeError_def alloc_def)



lemma pop_push [simp]: "krk_pop (krk_push v w) = (v, w)"
  by (simp add: krk_pop_def krk_push_def)

lemma set_obj_push: "set_obj a obj (krk_push v w) = krk_push v (set_obj a obj w)"
  by (simp add: set_obj_def krk_push_def)






section \<open>Claims about the views of a dict\<close>

lemma thread_set_obj [simp]: "thread (set_obj a obj w) = thread w"
  by (simp add: set_obj_def)

lemma heap_set_obj [simp]: "heap (set_obj a obj w) = (heap w)[a := obj]"
  by (simp add: set_obj_def)

lemma view_loop_None:
  "dictview_call_loop es i = (None, i') \<Longrightarrow>
   live_entries (drop i es) = [] \<and> i' = max i (length es) \<and>
   (\<forall>m. i \<le> m \<and> m < length es \<longrightarrow> IS_KWARGS (key (es ! m)))"
proof (induction es i rule: dictview_call_loop.induct)
  case (1 es i)
  show ?case
  proof (cases "i \<ge> length es")
    case True
    then show ?thesis using "1.prems" by (auto simp: live_entries_def)
  next
    case False
    then have lt: "i < length es" by simp
    have k: "IS_KWARGS (key (es ! i))" using "1.prems" False by (auto split: if_splits)
    then have rec: "dictview_call_loop es (i + 1) = (None, i')" using "1.prems" False by simp
    have IH: "live_entries (drop (i + 1) es) = [] \<and> i' = max (i + 1) (length es) \<and>
        (\<forall>m. i + 1 \<le> m \<and> m < length es \<longrightarrow> IS_KWARGS (key (es ! m)))"
    proof -
      have c2: "\<not> \<not> IS_KWARGS (key (es ! i))" using k by simp
      show ?thesis using "1.IH"[OF False c2 rec] .
    qed
    have d: "drop i es = es ! i # drop (Suc i) es" using lt by (simp add: Cons_nth_drop_Suc)
    have all: "\<forall>m. i \<le> m \<and> m < length es \<longrightarrow> IS_KWARGS (key (es ! m))"
    proof (intro allI impI)
      fix m assume "i \<le> m \<and> m < length es"
      then show "IS_KWARGS (key (es ! m))" using IH k by (cases "m = i") auto
    qed
    show ?thesis using IH k lt all by (simp add: d live_entries_def)
  qed
qed

lemma view_loop_Some:
  "dictview_call_loop es i = (Some e, i') \<Longrightarrow>
   live_entries (drop i es) = e # live_entries (drop i' es) \<and> i < i' \<and> i' \<le> length es \<and>
   \<not> IS_KWARGS (key e) \<and> e = es ! (i' - 1) \<and>
   (\<forall>m. i \<le> m \<and> m < i' - 1 \<longrightarrow> IS_KWARGS (key (es ! m)))"
proof (induction es i rule: dictview_call_loop.induct)
  case (1 es i)
  have lt: "i < length es" using "1.prems" by (auto split: if_splits)
  have d: "drop i es = es ! i # drop (Suc i) es" using lt by (simp add: Cons_nth_drop_Suc)
  show ?case
  proof (cases "IS_KWARGS (key (es ! i))")
    case False
    then show ?thesis using "1.prems" lt by (auto simp: d live_entries_def)
  next
    case True
    then have rec: "dictview_call_loop es (i + 1) = (Some e, i')" using "1.prems" lt by simp
    have IH: "live_entries (drop (i + 1) es) = e # live_entries (drop i' es) \<and> i + 1 < i' \<and>
        i' \<le> length es \<and> \<not> IS_KWARGS (key e) \<and> e = es ! (i' - 1) \<and>
        (\<forall>m. i + 1 \<le> m \<and> m < i' - 1 \<longrightarrow> IS_KWARGS (key (es ! m)))"
    proof -
      have c1: "\<not> length es \<le> i" using lt by simp
      have c2: "\<not> \<not> IS_KWARGS (key (es ! i))" using True by simp
      show ?thesis using "1.IH"[OF c1 c2 rec] .
    qed
    have all: "\<forall>m. i \<le> m \<and> m < i' - 1 \<longrightarrow> IS_KWARGS (key (es ! m))"
    proof (intro allI impI)
      fix m assume "i \<le> m \<and> m < i' - 1"
      then show "IS_KWARGS (key (es ! m))" using IH True by (cases "m = i") auto
    qed
    have le: "live_entries (drop i es) = live_entries (drop (i + 1) es)"
      using True by (simp add: d live_entries_def)
    show ?thesis unfolding le using IH all by auto
  qed
qed

lemma pop_set_obj_push:
  "krk_pop (set_obj a obj (krk_push v w)) = (v, set_obj a obj w)"
  by (simp add: set_obj_push)

declare dictview_call_loop.simps [simp del]

lemma view_loop_cases:
  "(\<exists>j. next_slot es i j \<and> dictview_call_loop es i = (Some (es ! j), Suc j)) \<or>
   (all_consumed es i \<and> dictview_call_loop es i = (None, max i (length es)))"
proof (cases "dictview_call_loop es i")
  case (Pair r i')
  show ?thesis
  proof (cases r)
    case None
    then have l: "dictview_call_loop es i = (None, i')" using Pair by simp
    note c = view_loop_None[OF l]
    have "all_consumed es i" using c by (simp add: all_consumed_def list_all_iff)
    then show ?thesis using c l by simp
  next
    case (Some e)
    have l: "dictview_call_loop es i = (Some e, i')" using Pair Some by simp
    note c = view_loop_Some[OF l]
    have f: "i < i'" "i' \<le> length es" "\<not> IS_KWARGS (key e)" "e = es ! (i' - 1)"
      "\<forall>m. i \<le> m \<and> m < i' - 1 \<longrightarrow> IS_KWARGS (key (es ! m))"
      using c by blast+
    have "next_slot es i (i' - 1)" unfolding next_slot_def list_all_iff
      using f(1,2,5) f(3)[unfolded f(4)] by auto
    moreover have "dictview_call_loop es i = (Some (es ! (i' - 1)), Suc (i' - 1))"
      using l f(1) unfolding f(4) by simp
    ultimately show ?thesis by blast
  qed
qed

text \<open>
  C2. Each call of \<^verbatim>\<open>__call__\<close> on a view of a dict returns and leaves the thread state
  as it is, so no exception is raised. Either it returns the entry of the next slot that
  holds one (its key, its value, or a new tuple of both) and moves the view past that
  slot, or every slot has been consumed and it returns the view itself.
\<close>

theorem dict_view_call:
  "(obj_at w it = Some (DictKeys d i) \<and> obj_at w d = Some (Dict f t) \<longrightarrow>
      (\<exists>r w'. dictkeys_call [it] w = Some (r, w') \<and> thread w' = thread w \<and>
         ((\<exists>j. next_slot (entries t) i j \<and> r = key (entries t ! j) \<and>
               w' = set_obj (AS_OBJECT it) (DictKeys d (Suc j)) w) \<or>
          (all_consumed (entries t) i \<and> r = it \<and>
               w' = set_obj (AS_OBJECT it) (DictKeys d (max i (capacity t))) w)))) \<and>
   (obj_at w it = Some (DictValues d i) \<and> obj_at w d = Some (Dict f t) \<longrightarrow>
      (\<exists>r w'. dictvalues_call [it] w = Some (r, w') \<and> thread w' = thread w \<and>
         ((\<exists>j. next_slot (entries t) i j \<and> r = val (entries t ! j) \<and>
               w' = set_obj (AS_OBJECT it) (DictValues d (Suc j)) w) \<or>
          (all_consumed (entries t) i \<and> r = it \<and>
               w' = set_obj (AS_OBJECT it) (DictValues d (max i (capacity t))) w)))) \<and>
   (obj_at w it = Some (DictItems d i) \<and> obj_at w d = Some (Dict f t) \<longrightarrow>
      (\<exists>r w'. dictitems_call [it] w = Some (r, w') \<and> thread w' = thread w \<and>
         ((\<exists>j. next_slot (entries t) i j \<and> r = OBJECT_VAL (length (heap w)) \<and>
               w' = set_obj (AS_OBJECT it) (DictItems d (Suc j))
                      (w\<lparr>heap := heap w @ [Tuple [key (entries t ! j), val (entries t ! j)]]\<rparr>)) \<or>
          (all_consumed (entries t) i \<and> r = it \<and>
               w' = set_obj (AS_OBJECT it) (DictItems d (max i (capacity t))) w))))"
proof (intro conjI impI)
  assume a: "obj_at w it = Some (DictKeys d i) \<and> obj_at w d = Some (Dict f t)"
  then have d: "IS_dict w d" "AS_DICT w d = t" using dict_facts by blast+
  from view_loop_cases[of "entries t" i]
  show "\<exists>r w'. dictkeys_call [it] w = Some (r, w') \<and> thread w' = thread w \<and>
         ((\<exists>j. next_slot (entries t) i j \<and> r = key (entries t ! j) \<and>
               w' = set_obj (AS_OBJECT it) (DictKeys d (Suc j)) w) \<or>
          (all_consumed (entries t) i \<and> r = it \<and>
               w' = set_obj (AS_OBJECT it) (DictKeys d (max i (capacity t))) w))"
    using a d by (auto simp: dictkeys_call_def pop_set_obj_push)
next
  assume a: "obj_at w it = Some (DictValues d i) \<and> obj_at w d = Some (Dict f t)"
  then have d: "IS_dict w d" "AS_DICT w d = t" using dict_facts by blast+
  from view_loop_cases[of "entries t" i]
  show "\<exists>r w'. dictvalues_call [it] w = Some (r, w') \<and> thread w' = thread w \<and>
         ((\<exists>j. next_slot (entries t) i j \<and> r = val (entries t ! j) \<and>
               w' = set_obj (AS_OBJECT it) (DictValues d (Suc j)) w) \<or>
          (all_consumed (entries t) i \<and> r = it \<and>
               w' = set_obj (AS_OBJECT it) (DictValues d (max i (capacity t))) w))"
    using a d by (auto simp: dictvalues_call_def pop_set_obj_push)
next
  assume a: "obj_at w it = Some (DictItems d i) \<and> obj_at w d = Some (Dict f t)"
  then have d: "IS_dict w d" "AS_DICT w d = t" using dict_facts by blast+
  from view_loop_cases[of "entries t" i]
  show "\<exists>r w'. dictitems_call [it] w = Some (r, w') \<and> thread w' = thread w \<and>
         ((\<exists>j. next_slot (entries t) i j \<and> r = OBJECT_VAL (length (heap w)) \<and>
               w' = set_obj (AS_OBJECT it) (DictItems d (Suc j))
                      (w\<lparr>heap := heap w @ [Tuple [key (entries t ! j), val (entries t ! j)]]\<rparr>)) \<or>
          (all_consumed (entries t) i \<and> r = it \<and>
               w' = set_obj (AS_OBJECT it) (DictItems d (max i (capacity t))) w))"
    using a d by (auto simp: dictitems_call_def pop_set_obj_push alloc_def)
qed


theorem dict_view_call_witness:
  "obj_at ex_view_world (OBJECT_VAL 4) = Some (DictKeys (OBJECT_VAL 3) 0) \<and>
   obj_at ex_view_world (OBJECT_VAL 6) = Some (DictValues (OBJECT_VAL 3) 4) \<and>
   obj_at ex_view_world (OBJECT_VAL 5) = Some (DictItems (OBJECT_VAL 3) 2) \<and>
   obj_at ex_view_world (OBJECT_VAL 3) = Some (Dict False ex_table) \<and>
   (\<exists>w'. dictkeys_call [OBJECT_VAL 4] ex_view_world = Some (INTEGER_VAL 1, w') \<and>
         thread w' = thread ex_view_world) \<and>
   (\<exists>w'. dictvalues_call [OBJECT_VAL 6] ex_view_world = Some (OBJECT_VAL 6, w') \<and>
         thread w' = thread ex_view_world) \<and>
   (\<exists>w'. dictitems_call [OBJECT_VAL 5] ex_view_world = Some (OBJECT_VAL 7, w') \<and>
         thread w' = thread ex_view_world)"
proof -
  have hk: "obj_at ex_view_world (OBJECT_VAL 4) = Some (DictKeys (OBJECT_VAL 3) 0)" by code_simp
  have hv: "obj_at ex_view_world (OBJECT_VAL 6) = Some (DictValues (OBJECT_VAL 3) 4)" by code_simp
  have hi: "obj_at ex_view_world (OBJECT_VAL 5) = Some (DictItems (OBJECT_VAL 3) 2)" by code_simp
  have hd: "obj_at ex_view_world (OBJECT_VAL 3) = Some (Dict False ex_table)" by code_simp
  have ek: "fst (the (dictkeys_call [OBJECT_VAL 4] ex_view_world)) = INTEGER_VAL 1" by code_simp
  have ev: "fst (the (dictvalues_call [OBJECT_VAL 6] ex_view_world)) = OBJECT_VAL 6" by code_simp
  have ei: "fst (the (dictitems_call [OBJECT_VAL 5] ex_view_world)) = OBJECT_VAL 7" by code_simp
  note t = dict_view_call[of ex_view_world _ "OBJECT_VAL 3" _ False ex_table]
  have k: "\<exists>w'. dictkeys_call [OBJECT_VAL 4] ex_view_world = Some (INTEGER_VAL 1, w') \<and>
         thread w' = thread ex_view_world"
    using t[of "OBJECT_VAL 4" 0] hk hd ek by auto
  have v: "\<exists>w'. dictvalues_call [OBJECT_VAL 6] ex_view_world = Some (OBJECT_VAL 6, w') \<and>
         thread w' = thread ex_view_world"
    using t[of "OBJECT_VAL 6" 4] hv hd ev by auto
  have i: "\<exists>w'. dictitems_call [OBJECT_VAL 5] ex_view_world = Some (OBJECT_VAL 7, w') \<and>
         thread w' = thread ex_view_world"
    using t[of "OBJECT_VAL 5" 2] hi hd ei by auto
  show ?thesis using hk hv hi hd k v i by blast
qed


















section \<open>Claims about native functions that fail\<close>

lemma thread_push_pop:
  "thread (snd (krk_pop (set_obj a obj (krk_push v w)))) = thread w"
  by (simp add: pop_set_obj_push)












section \<open>Claims about calls\<close>

lemma runtimeError_frames [simp]:
  "frames (thread (snd (krk_runtimeError c m w))) = frames (thread w)"
  by (simp add: runtimeError_thread)

lemma runtimeError_stack [simp]:
  "stack (thread (snd (krk_runtimeError c m w))) = stack (thread w)"
  by (simp add: runtimeError_thread)

lemma set_stack_simps [simp]:
  "frames (thread (set_stack st w)) = frames (thread w)"
  "stack (thread (set_stack st w)) = st"
  "heap (set_stack st w) = heap w"
  "maximumCallDepth (set_stack st w) = maximumCallDepth w"
  by (simp_all add: set_stack_def)

lemma obj_at_set_stack [simp]: "obj_at (set_stack st w) v = obj_at w v"
  by (cases v) (simp_all add: obj_at_def)

lemma push_frame_simps [simp]:
  "frames (thread (push_frame f w)) = frames (thread w) @ [f]"
  "stack (thread (push_frame f w)) = stack (thread w)"
  "heap (push_frame f w) = heap w"
  by (simp_all add: push_frame_def)













section \<open>Claims about representations\<close>


lemma world_heap_id [simp]: "w\<lparr>heap := heap w\<rparr> = w"
  by simp

















section \<open>Claims about a dict built from the items of a dict\<close>

lemma has_exception_set_obj [simp]: "has_exception (set_obj a obj w) = has_exception w"
  by (simp add: has_exception_def)

lemma has_exception_set_entries [simp]: "has_exception (set_entries d t w) = has_exception w"
  by (simp add: has_exception_def)

lemma has_exception_heap [simp]: "has_exception (w\<lparr>heap := h\<rparr>) = has_exception w"
  by (simp add: has_exception_def)





lemma keys_distinct_drop: "keys_distinct es \<Longrightarrow> keys_distinct (drop i es)"
proof (induction es arbitrary: i)
  case Nil
  then show ?case by simp
next
  case (Cons e es)
  then show ?case by (cases i) auto
qed









end
